theory Spec2Isabelle
  imports Complex_Main
begin

section \<open>The line resolver (game/utils.py)\<close>

text \<open>
  Tile values are numpy integers. They are modelled as \<open>int\<close>: the values of a game are
  powers of two far below the 64-bit range, so no operation of the modelled code wraps.
  A line (one row or column of the grid) is a list of tile values; 0 is the empty cell.
\<close>

type_synonym line = "int list"

text \<open>
  The \<open>while i < len(non_zero)\<close> loop of \<open>combine_line\<close>. The first argument is the
  part of \<open>non_zero\<close> from index \<open>i\<close> on, the second is \<open>new_line_list\<close>, the third is
  \<open>score_gained\<close>.
\<close>

fun combine_loop :: "line \<Rightarrow> line \<Rightarrow> int \<Rightarrow> line \<times> int" where
  "combine_loop [] new_line_list score_gained = (new_line_list, score_gained)"
| "combine_loop [x] new_line_list score_gained = (new_line_list @ [x], score_gained)"
| "combine_loop (x # y # rest) new_line_list score_gained =
     (if x = y
      then combine_loop rest (new_line_list @ [x * 2]) (score_gained + x * 2)
      else combine_loop (y # rest) (new_line_list @ [x]) score_gained)"

definition combine_line :: "line \<Rightarrow> line \<times> int" where
  "combine_line line =
     (let non_zero = filter (\<lambda>v. v \<noteq> 0) line;
          (new_line_list, score_gained) = combine_loop non_zero [] 0
      in (new_line_list @ replicate (length line - length new_line_list) 0, score_gained))"

text \<open>
  The resolver as the specification words it: scan the nonzero values left to right; when
  the current value equals the next unconsumed one, replace both by their sum and advance
  two positions, otherwise keep the value and advance one position.
\<close>

fun resolve_merge :: "line \<Rightarrow> line" where
  "resolve_merge [] = []"
| "resolve_merge [x] = [x]"
| "resolve_merge (x # y # rest) =
     (if x = y then (x + y) # resolve_merge rest else x # resolve_merge (y # rest))"

fun resolve_score :: "line \<Rightarrow> int" where
  "resolve_score [] = 0"
| "resolve_score [x] = 0"
| "resolve_score (x # y # rest) =
     (if x = y then (x + y) + resolve_score rest else resolve_score (y # rest))"

definition resolve :: "line \<Rightarrow> line \<times> int" where
  "resolve line =
     (let merged = resolve_merge (filter (\<lambda>v. v \<noteq> 0) line)
      in (merged @ replicate (length line - length merged) 0,
          resolve_score (filter (\<lambda>v. v \<noteq> 0) line)))"

section \<open>The board (game/board.py)\<close>

text \<open>
  The grid is a two-dimensional numpy array, modelled as the list of its rows. A board
  built by \<open>Board.__init__\<close> has a \<open>size \<times> size\<close> grid, and \<open>move\<close> and the spawner keep
  that shape; \<open>wf_board\<close> states it. Operations that numpy rejects (an index out of
  range, the maximum of an array without elements) raise in the source and give \<open>Inl\<close> in
  the model.
\<close>

type_synonym grid = "int list list"

datatype py_error = IndexError | ValueError | FileNotFoundError

record spawner =
  sp_difficulty :: string
  search_depth :: nat
  debug :: bool

record board =
  size_b :: nat
  grid :: grid
  score :: int
  high_tile :: int
  game_over :: bool
  won :: bool
  highscore :: int
  difficulty :: string
  ai_spawner :: spawner

definition wf_grid :: "nat \<Rightarrow> grid \<Rightarrow> bool" where
  "wf_grid n g \<longleftrightarrow> length g = n \<and> list_all (\<lambda>row. length row = n) g"

definition wf_board :: "board \<Rightarrow> bool" where
  "wf_board b \<longleftrightarrow> wf_grid (size_b b) (grid b)"

text \<open>\<open>grid.T\<close>: entry \<open>(j, i)\<close> of the transposed array is entry \<open>(i, j)\<close> of the array.\<close>

definition transpose_g :: "grid \<Rightarrow> grid" where
  "transpose_g g =
     (case g of
        [] \<Rightarrow> []
      | row0 # _ \<Rightarrow> map (\<lambda>j. map (\<lambda>row. row ! j) g) [0..<length row0])"

definition zeros_like :: "grid \<Rightarrow> grid" where
  "zeros_like g = map (\<lambda>row. map (\<lambda>_. 0) row) g"

text \<open>\<open>grid.max()\<close>; numpy raises ValueError on an array without elements.\<close>

definition grid_max :: "grid \<Rightarrow> py_error + int" where
  "grid_max g = (case concat g of [] \<Rightarrow> Inl ValueError | v # vs \<Rightarrow> Inr (fold max vs v))"

text \<open>The body of the \<open>for i in range(self.size)\<close> loop of \<open>move\<close>, for one line.\<close>

definition process_line :: "string \<Rightarrow> line \<Rightarrow> line \<times> int" where
  "process_line direction line_to_process =
     (let flipped = (if direction \<in> set [''right'', ''down'']
                     then rev line_to_process else line_to_process);
          (new_line, score_gained) = combine_line flipped
      in ((if direction \<in> set [''right'', ''down''] then rev new_line else new_line),
          score_gained))"

text \<open>
  The loop itself, over the indices still to visit; \<open>grid_to_process[i, :]\<close> raises
  IndexError when the array has no row \<open>i\<close>.
\<close>

fun move_rows :: "string \<Rightarrow> grid \<Rightarrow> nat list \<Rightarrow> grid \<Rightarrow> int \<Rightarrow> py_error + (grid \<times> int)" where
  "move_rows direction grid_to_process [] new_grid total_score_gained =
     Inr (new_grid, total_score_gained)"
| "move_rows direction grid_to_process (i # rest) new_grid total_score_gained =
     (if i < length grid_to_process
      then (let (new_line, score_gained) = process_line direction (grid_to_process ! i)
            in move_rows direction grid_to_process rest
                 (new_grid[i := new_line]) (total_score_gained + score_gained))
      else Inl IndexError)"

text \<open>The grid a move resolves to, with the points gained, before anything is committed.\<close>

definition resolve_grid :: "string \<Rightarrow> nat \<Rightarrow> grid \<Rightarrow> py_error + (grid \<times> int)" where
  "resolve_grid direction n g =
     (let grid_to_process = (if direction \<in> set [''up'', ''down''] then transpose_g g else g)
      in case move_rows direction grid_to_process [0..<n] (zeros_like grid_to_process) 0 of
           Inl e \<Rightarrow> Inl e
         | Inr (new_grid, total_score_gained) \<Rightarrow>
             Inr ((if direction \<in> set [''up'', ''down'']
                   then transpose_g new_grid else new_grid), total_score_gained))"

text \<open>
  \<open>Board.move\<close>: the returned flag and the board after the call. The two \<open>print\<close> calls
  write to the console only and are not modelled.
\<close>

definition move :: "board \<Rightarrow> string \<Rightarrow> py_error + (bool \<times> board)" where
  "move self direction =
     (if direction \<notin> set [''up'', ''down'', ''left'', ''right''] then Inr (False, self)
      else
        case resolve_grid direction (size_b self) (grid self) of
          Inl e \<Rightarrow> Inl e
        | Inr (new_grid, total_score_gained) \<Rightarrow>
            if new_grid = grid self then Inr (False, self)
            else
              (case grid_max new_grid of
                 Inl e \<Rightarrow> Inl e
               | Inr m \<Rightarrow>
                   (let new_score = score self + total_score_gained;
                        self' = self\<lparr>grid := new_grid, score := new_score,
                                     highscore := max new_score (highscore self),
                                     high_tile := m\<rparr>
                    in Inr (True,
                            if high_tile self' \<ge> 2048 \<and> \<not> won self'
                            then self'\<lparr>won := True\<rparr> else self'))))"

text \<open>\<open>np.sum(grid)\<close>: the sum of all tile values.\<close>

definition grid_sum :: "grid \<Rightarrow> int" where
  "grid_sum g = sum_list (concat g)"

text \<open>
  A board as the tests build it: \<open>Board(n, spawn_initial=False)\<close> with the grid installed
  afterwards.
\<close>

definition board_of :: "grid \<Rightarrow> board" where
  "board_of g =
     \<lparr>size_b = length g, grid = g, score = 0, high_tile = 0, game_over = False,
      won = False, highscore = 0, difficulty = ''medium'',
      ai_spawner = \<lparr>sp_difficulty = ''medium'', search_depth = 2, debug = False\<rparr>\<rparr>"

text \<open>Boards used as concrete inputs below.\<close>

definition b_slide :: board where
  "b_slide = board_of [[2, 0, 0, 0], [0, 0, 0, 0], [0, 0, 0, 0], [0, 0, 0, 0]]"

definition b_merge :: board where
  "b_merge = board_of [[2, 2, 0, 0], [0, 0, 0, 0], [0, 0, 0, 0], [0, 0, 0, 0]]"

definition b_twice :: board where
  "b_twice = board_of [[2, 2, 4, 0], [0, 0, 0, 0], [0, 0, 0, 0], [0, 0, 0, 0]]"


text \<open>Two equal nonzero tiles next to each other in a line.\<close>

fun adjacent_equal :: "line \<Rightarrow> bool" where
  "adjacent_equal [] = False"
| "adjacent_equal [x] = False"
| "adjacent_equal (x # y # rest) = ((x \<noteq> 0 \<and> x = y) \<or> adjacent_equal (y # rest))"

text \<open>A line whose tiles all stand before its empty cells.\<close>

definition compacted :: "line \<Rightarrow> bool" where
  "compacted l \<longleftrightarrow> (\<exists>nz k. l = nz @ replicate k 0 \<and> 0 \<notin> set nz)"



section \<open>Properties of the line resolver\<close>

subsection \<open>Facts about the loop\<close>

lemma combine_loop_acc:
  "combine_loop xs acc s = (acc @ resolve_merge xs, s + resolve_score xs)"
  by (induction xs acc s rule: combine_loop.induct) simp_all

lemma combine_line_resolve: "combine_line line = resolve line"
  by (simp add: combine_line_def resolve_def combine_loop_acc Let_def)

lemma length_resolve_merge_le: "length (resolve_merge xs) \<le> length xs"
  by (induction xs rule: resolve_merge.induct) auto

lemma length_resolve_merge_ge: "length xs \<le> 2 * length (resolve_merge xs)"
  by (induction xs rule: resolve_merge.induct) auto

lemma sum_list_resolve_merge: "sum_list (resolve_merge xs) = sum_list xs"
  by (induction xs rule: resolve_merge.induct) simp_all

lemma sum_list_filter_nonzero: "sum_list (filter (\<lambda>v. v \<noteq> 0) xs) = sum_list (xs :: int list)"
  by (induction xs) simp_all

lemma length_fst_combine_line: "length (fst (combine_line line)) = length line"
proof -
  have "length (resolve_merge (filter (\<lambda>v. v \<noteq> 0) line)) \<le> length line"
    by (rule order_trans [OF length_resolve_merge_le]) simp
  then show ?thesis
    by (simp add: combine_line_resolve resolve_def Let_def)
qed

lemma sum_list_fst_combine_line: "sum_list (fst (combine_line line)) = sum_list line"
  by (simp add: combine_line_resolve resolve_def Let_def sum_list_resolve_merge
      sum_list_filter_nonzero sum_list_replicate)

text \<open>
  Claim C1. For every line, \<open>combine_line\<close> is the one-pass compress-and-merge of the
  specification: it returns what \<open>resolve\<close> returns, every tile of the result comes from at
  most two tiles of the input (so a tile formed by a merge is not merged again), and the
  three lines of the specification resolve as stated; \<open>[2,2,4,0]\<close> shows a merged 4 next
  to a 4 that stays unmerged.
\<close>

theorem combine_line_one_pass:
  "combine_line line = resolve line
   \<and> length (filter (\<lambda>v. v \<noteq> 0) line)
       \<le> 2 * length (fst (combine_loop (filter (\<lambda>v. v \<noteq> 0) line) [] 0))
   \<and> combine_line [2, 2, 0, 0] = ([4, 0, 0, 0], 4)
   \<and> combine_line [2, 2, 4, 4] = ([4, 8, 0, 0], 12)
   \<and> combine_line [2, 2, 2, 0] = ([4, 2, 0, 0], 4)
   \<and> combine_line [2, 2, 4, 0] = ([4, 4, 0, 0], 4)"
proof -
  have "length (filter (\<lambda>v. v \<noteq> 0) line)
        \<le> 2 * length (fst (combine_loop (filter (\<lambda>v. v \<noteq> 0) line) [] 0))"
    by (simp add: combine_loop_acc length_resolve_merge_ge)
  moreover have "combine_line [2, 2, 0, 0] = ([4, 0, 0, 0], 4)"
    by (simp add: combine_line_def)
  moreover have "combine_line [2, 2, 4, 4] = ([4, 8, 0, 0], 12)"
    by (simp add: combine_line_def)
  moreover have "combine_line [2, 2, 2, 0] = ([4, 2, 0, 0], 4)"
    by (simp add: combine_line_def)
  moreover have "combine_line [2, 2, 4, 0] = ([4, 4, 0, 0], 4)"
    by (simp add: combine_line_def)
  ultimately show ?thesis
    by (simp only: combine_line_resolve simp_thms)
qed

section \<open>Properties of the move\<close>

lemma move_rows_fold:
  "\<forall>i\<in>set idxs. i < length gp \<Longrightarrow>
   move_rows d gp idxs ng tot =
     Inr (fold (\<lambda>i g. g[i := fst (process_line d (gp ! i))]) idxs ng,
          tot + sum_list (map (\<lambda>i. snd (process_line d (gp ! i))) idxs))"
  by (induction idxs arbitrary: ng tot) (simp_all add: split_def Let_def)

lemma fold_update_upt:
  "n \<le> length gp \<Longrightarrow> length ng = length gp \<Longrightarrow>
   fold (\<lambda>i g. g[i := f (gp ! i)]) [0..<n] ng = map f (take n gp) @ drop n ng"
proof (induction n)
  case 0
  then show ?case by simp
next
  case (Suc n)
  then have n: "n < length gp" "n < length ng" by simp_all
  have "fold (\<lambda>i g. g[i := f (gp ! i)]) [0..<Suc n] ng
        = (map f (take n gp) @ drop n ng)[n := f (gp ! n)]"
    using Suc by simp
  also have "\<dots> = map f (take n gp) @ (drop n ng)[0 := f (gp ! n)]"
    using n by (simp add: list_update_append)
  also have "(drop n ng)[0 := f (gp ! n)] = f (gp ! n) # drop (Suc n) ng"
    using n by (simp add: Cons_nth_drop_Suc [symmetric])
  finally show ?case
    using n by (simp add: take_Suc_conv_app_nth)
qed

lemma move_rows_all:
  assumes "length ng = length gp"
  shows "move_rows d gp [0..<length gp] ng tot =
           Inr (map (\<lambda>l. fst (process_line d l)) gp,
                tot + sum_list (map (\<lambda>l. snd (process_line d l)) gp))"
proof -
  have "map (\<lambda>i. snd (process_line d (gp ! i))) [0..<length gp]
        = map (\<lambda>l. snd (process_line d l)) gp"
    by (rule nth_equalityI) simp_all
  moreover have "fold (\<lambda>i g. g[i := fst (process_line d (gp ! i))]) [0..<length gp] ng
        = map (\<lambda>l. fst (process_line d l)) gp"
    using fold_update_upt [of "length gp" gp ng "\<lambda>l. fst (process_line d l)"] assms by simp
  ultimately show ?thesis
    by (simp add: move_rows_fold)
qed

lemma length_fst_process_line: "length (fst (process_line d l)) = length l"
  using length_fst_combine_line [of l] length_fst_combine_line [of "rev l"]
  by (simp add: process_line_def Let_def split_def)

lemma sum_list_fst_process_line: "sum_list (fst (process_line d l)) = sum_list l"
  using sum_list_fst_combine_line [of l] sum_list_fst_combine_line [of "rev l"]
  by (simp add: process_line_def Let_def split_def)

lemma length_transpose_g: "wf_grid n g \<Longrightarrow> length (transpose_g g) = n"
  by (cases g) (auto simp: wf_grid_def transpose_g_def)

lemma wf_grid_transpose_g: "wf_grid n g \<Longrightarrow> wf_grid n (transpose_g g)"
  by (cases g) (auto simp: wf_grid_def transpose_g_def list_all_iff)

lemma transpose_g_wf:
  "wf_grid n g \<Longrightarrow> transpose_g g = map (\<lambda>j. map (\<lambda>row. row ! j) g) [0..<n]"
  by (cases g) (auto simp: wf_grid_def transpose_g_def)

lemma nth_nth_transpose_g:
  "wf_grid n g \<Longrightarrow> i < n \<Longrightarrow> j < n \<Longrightarrow> transpose_g g ! j ! i = g ! i ! j"
  by (simp add: transpose_g_wf) (simp add: wf_grid_def)

lemma wf_grid_nth: "wf_grid n g \<Longrightarrow> i < n \<Longrightarrow> length (g ! i) = n"
  by (auto simp: wf_grid_def list_all_length)

lemma wf_grid_eqI:
  assumes "wf_grid n g" "wf_grid n h" "\<And>i j. i < n \<Longrightarrow> j < n \<Longrightarrow> g ! i ! j = h ! i ! j"
  shows "g = h"
proof (rule nth_equalityI)
  show "length g = length h" using assms by (simp add: wf_grid_def)
next
  fix i assume "i < length g"
  then have i: "i < n" using assms by (simp add: wf_grid_def)
  show "g ! i = h ! i"
    by (rule nth_equalityI) (use i assms in \<open>simp_all add: wf_grid_nth\<close>)
qed

lemma transpose_g_transpose_g:
  assumes "wf_grid n g"
  shows "transpose_g (transpose_g g) = g"
proof (rule wf_grid_eqI [of n])
  show "wf_grid n (transpose_g (transpose_g g))"
    using assms by (intro wf_grid_transpose_g)
  show "wf_grid n g" by fact
  fix i j assume "i < n" "j < n"
  then show "transpose_g (transpose_g g) ! i ! j = g ! i ! j"
    using assms nth_nth_transpose_g [of n "transpose_g g" j i] nth_nth_transpose_g [of n g i j]
    by (simp add: wf_grid_transpose_g)
qed

lemma sum_list_concat_rows: "sum_list (concat g) = sum_list (map sum_list (g :: grid))"
  by (induction g) simp_all

lemma sum_list_concat_columns:
  "list_all (\<lambda>row. length row = n) g \<Longrightarrow>
   sum_list (concat (map (\<lambda>j. map (\<lambda>row. row ! j) g) [0..<n])) = sum_list (concat (g :: grid))"
proof (induction g)
  case Nil
  then show ?case by (simp add: sum_list_concat_rows comp_def)
next
  case (Cons r g)
  then have r: "length r = n" by simp
  have "sum_list (map (\<lambda>j. r ! j) [0..<n]) = sum_list r"
    unfolding r [symmetric] by (simp add: map_nth)
  with Cons show ?case
    by (simp add: sum_list_concat_rows comp_def sum_list_addf)
qed

lemma grid_sum_transpose_g: "wf_grid n g \<Longrightarrow> grid_sum (transpose_g g) = grid_sum g"
  using sum_list_concat_columns [of n g]
  by (cases g) (auto simp: wf_grid_def transpose_g_def grid_sum_def)

lemma wf_grid_map_process_line:
  "wf_grid n g \<Longrightarrow> wf_grid n (map (\<lambda>l. fst (process_line d l)) g)"
  by (simp add: wf_grid_def list_all_iff length_fst_process_line)

lemma grid_sum_map_process_line:
  "grid_sum (map (\<lambda>l. fst (process_line d l)) g) = grid_sum g"
  by (simp add: grid_sum_def sum_list_concat_rows comp_def sum_list_fst_process_line)

lemma length_zeros_like: "length (zeros_like g) = length g"
  by (simp add: zeros_like_def)

lemma resolve_grid_horizontal:
  assumes "wf_grid n g" "d \<notin> set [''up'', ''down'']"
  shows "resolve_grid d n g =
           Inr (map (\<lambda>l. fst (process_line d l)) g,
                sum_list (map (\<lambda>l. snd (process_line d l)) g))"
proof -
  have n: "n = length g" using assms by (simp add: wf_grid_def)
  show ?thesis
    using assms(2) unfolding resolve_grid_def n
    by (simp add: move_rows_all length_zeros_like Let_def)
qed

lemma resolve_grid_vertical:
  assumes "wf_grid n g" "d \<in> set [''up'', ''down'']"
  shows "resolve_grid d n g =
           Inr (transpose_g (map (\<lambda>l. fst (process_line d l)) (transpose_g g)),
                sum_list (map (\<lambda>l. snd (process_line d l)) (transpose_g g)))"
proof -
  have n: "n = length (transpose_g g)" using assms by (simp add: length_transpose_g)
  show ?thesis
    using assms(2) unfolding resolve_grid_def n
    by (simp add: move_rows_all length_zeros_like Let_def)
qed

lemma resolve_grid_wf:
  assumes "wf_grid n g"
  shows "\<exists>g' s. resolve_grid d n g = Inr (g', s) \<and> wf_grid n g' \<and> grid_sum g' = grid_sum g"
proof (cases "d \<in> set [''up'', ''down'']")
  case True
  let ?t = "map (\<lambda>l. fst (process_line d l)) (transpose_g g)"
  have wf: "wf_grid n ?t"
    using assms by (intro wf_grid_map_process_line wf_grid_transpose_g)
  have "grid_sum (transpose_g ?t) = grid_sum g"
    using wf assms by (simp add: grid_sum_transpose_g grid_sum_map_process_line)
  then show ?thesis
    using resolve_grid_vertical [OF assms True] wf by (simp add: wf_grid_transpose_g)
next
  case False
  then show ?thesis
    using resolve_grid_horizontal [OF assms False] assms
    by (simp add: wf_grid_map_process_line grid_sum_map_process_line)
qed

lemma grid_max_wf:
  assumes "wf_grid n g" "0 < n"
  shows "\<exists>m. grid_max g = Inr m"
proof -
  obtain r rs where g: "g = r # rs" using assms by (cases g) (auto simp: wf_grid_def)
  then have "length r = n" using assms by (simp add: wf_grid_def)
  then obtain v vs where "r = v # vs" using assms(2) by (cases r) auto
  then show ?thesis by (simp add: grid_max_def g)
qed

lemma wf_grid_0: "wf_grid 0 g \<longleftrightarrow> g = []"
  by (auto simp: wf_grid_def)

text \<open>What a move does on a well-formed board, in one statement.\<close>

lemma move_wf_cases:
  assumes "wf_board b" "d \<in> set [''up'', ''down'', ''left'', ''right'']"
  obtains (unchanged) g' s where "resolve_grid d (size_b b) (grid b) = Inr (g', s)"
      "g' = grid b" "move b d = Inr (False, b)"
  | (changed) g' s m where "resolve_grid d (size_b b) (grid b) = Inr (g', s)"
      "g' \<noteq> grid b" "wf_grid (size_b b) g'" "grid_sum g' = grid_sum (grid b)"
      "grid_max g' = Inr m"
      "move b d = Inr (True, b\<lparr>grid := g', score := score b + s,
                   highscore := max (score b + s) (highscore b), high_tile := m,
                   won := (won b \<or> 2048 \<le> m)\<rparr>)"
proof -
  obtain g' s where r: "resolve_grid d (size_b b) (grid b) = Inr (g', s)"
    and wf: "wf_grid (size_b b) g'" and sum: "grid_sum g' = grid_sum (grid b)"
    using resolve_grid_wf [of "size_b b" "grid b" d] assms(1) by (auto simp: wf_board_def)
  show thesis
  proof (cases "g' = grid b")
    case True
    with r assms(2) have "move b d = Inr (False, b)" by (simp add: move_def)
    with r True show thesis by (rule unchanged)
  next
    case False
    have "0 < size_b b"
    proof (rule ccontr)
      assume "\<not> 0 < size_b b"
      then have "g' = []" "grid b = []"
        using wf assms(1) by (simp_all add: wf_board_def wf_grid_0)
      with False show False by simp
    qed
    then obtain m where m: "grid_max g' = Inr m" using grid_max_wf [OF wf] by blast
    have "move b d = Inr (True, b\<lparr>grid := g', score := score b + s,
                   highscore := max (score b + s) (highscore b), high_tile := m,
                   won := (won b \<or> 2048 \<le> m)\<rparr>)"
      using r False m assms(2) by (auto simp: move_def Let_def)
    with r False wf sum m show thesis by (rule changed)
  qed
qed

lemma move_invalid:
  "direction \<notin> set [''up'', ''down'', ''left'', ''right''] \<Longrightarrow> move b direction = Inr (False, b)"
  by (simp add: move_def)

lemma move_Inr_cases:
  assumes "move b d = Inr (ok, b')"
  shows "(\<not> ok \<and> b' = b) \<or>
         (ok \<and> d \<in> set [''up'', ''down'', ''left'', ''right''] \<and> grid b' \<noteq> grid b \<and>
          (\<exists>s. resolve_grid d (size_b b) (grid b) = Inr (grid b', s)) \<and>
          won b' = (won b \<or> 2048 \<le> high_tile b'))"
  using assms
  by (auto simp: move_def Let_def split: if_splits sum.splits prod.splits)



subsection \<open>Lines that a move leaves alone\<close>

lemma resolve_merge_nonzero: "0 \<notin> set xs \<Longrightarrow> 0 \<notin> set (resolve_merge xs)"
  by (induction xs rule: resolve_merge.induct) auto

lemma resolve_merge_distinct_adj: "distinct_adj xs \<Longrightarrow> resolve_merge xs = xs"
  by (induction xs rule: resolve_merge.induct) auto

lemma resolve_merge_shorter: "\<not> distinct_adj xs \<Longrightarrow> length (resolve_merge xs) < length xs"
proof (induction xs rule: resolve_merge.induct)
  case (3 x y rest)
  show ?case
  proof (cases "x = y")
    case True
    then show ?thesis using length_resolve_merge_le [of rest] by simp
  next
    case False
    then show ?thesis using 3 by simp
  qed
qed simp_all

lemma resolve_merge_id_iff: "resolve_merge xs = xs \<longleftrightarrow> distinct_adj xs"
  using resolve_merge_distinct_adj resolve_merge_shorter [of xs] by fastforce

lemma filter_nonzero_compacted:
  "0 \<notin> set nz \<Longrightarrow> filter (\<lambda>v. v \<noteq> 0) (nz @ replicate k (0::int)) = nz"
  by (simp add: filter_id_conv) (metis)

lemma compacted_combine_line: "compacted (fst (combine_line l))"
proof -
  have "0 \<notin> set (resolve_merge (filter (\<lambda>v. v \<noteq> 0) l))"
    by (rule resolve_merge_nonzero) simp
  then show ?thesis
    unfolding compacted_def combine_line_resolve resolve_def Let_def by auto
qed

lemma combine_line_fixed_iff:
  assumes "0 \<notin> set nz"
  shows "fst (combine_line (nz @ replicate k 0)) = nz @ replicate k 0 \<longleftrightarrow> distinct_adj nz"
proof
  assume "distinct_adj nz"
  then show "fst (combine_line (nz @ replicate k 0)) = nz @ replicate k 0"
    using assms
    by (simp add: combine_line_resolve resolve_def Let_def filter_nonzero_compacted
        resolve_merge_distinct_adj del: filter_append)
next
  assume eq: "fst (combine_line (nz @ replicate k 0)) = nz @ replicate k 0"
  let ?m = "resolve_merge nz"
  have eq': "?m @ replicate (length nz + k - length ?m) 0 = nz @ replicate k 0"
    using eq assms
    by (simp add: combine_line_resolve resolve_def Let_def filter_nonzero_compacted
        del: filter_append)
  show "distinct_adj nz"
  proof (rule ccontr)
    assume "\<not> distinct_adj nz"
    then have lt: "length ?m < length nz" by (rule resolve_merge_shorter)
    have "(?m @ replicate (length nz + k - length ?m) 0) ! length ?m = 0"
      using lt by (simp add: nth_append)
    moreover have "(nz @ replicate k 0) ! length ?m = nz ! length ?m"
      using lt by (simp add: nth_append)
    ultimately have "nz ! length ?m = 0" using eq' by simp
    moreover have "nz ! length ?m \<in> set nz" using lt by simp
    ultimately show False using assms by metis
  qed
qed

lemma adjacent_equal_zeros: "\<not> adjacent_equal (replicate k 0)"
proof (induction k)
  case (Suc k)
  then show ?case by (cases k) simp_all
qed simp

lemma adjacent_equal_compacted:
  "0 \<notin> set nz \<Longrightarrow> adjacent_equal (nz @ replicate k 0) \<longleftrightarrow> \<not> distinct_adj nz"
proof (induction nz rule: resolve_merge.induct)
  case 1
  then show ?case by (simp add: adjacent_equal_zeros)
next
  case (2 x)
  then show ?case using adjacent_equal_zeros [of k] by (cases k) auto
next
  case (3 x y rest)
  then show ?case by auto
qed

lemma combine_line_changes_iff:
  assumes "compacted l"
  shows "fst (combine_line l) \<noteq> l \<longleftrightarrow> adjacent_equal l"
proof -
  obtain nz k where l: "l = nz @ replicate k 0" and nz: "0 \<notin> set nz"
    using assms by (auto simp: compacted_def)
  show ?thesis
    unfolding l using combine_line_fixed_iff [OF nz, of k] adjacent_equal_compacted [OF nz, of k]
    by blast
qed

lemma process_line_left: "process_line ''left'' l = combine_line l"
  by (simp add: process_line_def split_def)

lemma map_changes_iff: "map f xs \<noteq> xs \<longleftrightarrow> (\<exists>x\<in>set xs. f x \<noteq> x)"
  by (induction xs) auto

section \<open>Rejected and accepted moves\<close>

lemma upt4: "[0..<4] = [0, 1, 2, 3]"
  by (simp add: upt_rec)

lemmas move_eval = board_of_def move_def resolve_grid_def upt4 zeros_like_def
  process_line_def combine_line_def transpose_g_def grid_max_def

lemma wf_board_of4:
  "wf_board (board_of [[a1, a2, a3, a4], [b1, b2, b3, b4], [c1, c2, c3, c4], [d1, d2, d3, d4]])"
  by (simp add: wf_board_def wf_grid_def board_of_def)

text \<open>
  Claim C2. \<open>Board.move\<close> returns false and leaves the whole board as it was when the
  direction is not one of the four accepted strings, and when the resolved grid equals the
  grid before the move; a call that returns false never changes the board, and a call
  that returns true has committed a grid different from the old one, for an accepted
  direction.
\<close>

theorem move_rejected_unchanged:
  "(direction \<notin> set [''up'', ''down'', ''left'', ''right''] \<longrightarrow> move b direction = Inr (False, b))
   \<and> (\<forall>s. resolve_grid direction (size_b b) (grid b) = Inr (grid b, s)
         \<longrightarrow> move b direction = Inr (False, b))
   \<and> (\<forall>b'. move b direction = Inr (False, b') \<longrightarrow> b' = b)
   \<and> (\<forall>b'. move b direction = Inr (True, b') \<longrightarrow>
         grid b' \<noteq> grid b \<and> direction \<in> set [''up'', ''down'', ''left'', ''right'']
         \<and> (\<exists>s. resolve_grid direction (size_b b) (grid b) = Inr (grid b', s)))"
proof (intro conjI allI impI)
  show "move b direction = Inr (False, b)"
    if "direction \<notin> set [''up'', ''down'', ''left'', ''right'']"
    using that by (rule move_invalid)
  show "move b direction = Inr (False, b)"
    if "resolve_grid direction (size_b b) (grid b) = Inr (grid b, s)" for s
    using that by (simp add: move_def)
  show "b' = b" if "move b direction = Inr (False, b')" for b'
    using move_Inr_cases [OF that] by simp
  fix b' assume m: "move b direction = Inr (True, b')"
  show "grid b' \<noteq> grid b" using move_Inr_cases [OF m] by simp
  show "direction \<in> set [''up'', ''down'', ''left'', ''right'']"
    using move_Inr_cases [OF m] by simp
  show "\<exists>s. resolve_grid direction (size_b b) (grid b) = Inr (grid b', s)"
    using move_Inr_cases [OF m] by simp
qed

lemma move_b_slide_left: "move b_slide ''left'' = Inr (False, b_slide)"
  by (simp add: b_slide_def move_eval)

lemma resolve_b_slide_left:
  "resolve_grid ''left'' (size_b b_slide) (grid b_slide) = Inr (grid b_slide, 0)"
  by (simp add: b_slide_def move_eval)

lemma move_b_merge_left:
  "move b_merge ''left'' =
     Inr (True, b_merge\<lparr>grid := [[4, 0, 0, 0], [0, 0, 0, 0], [0, 0, 0, 0], [0, 0, 0, 0]],
                       score := 4, highscore := 4, high_tile := 4\<rparr>)"
  by (simp add: b_merge_def move_eval)

theorem move_rejected_unchanged_witness:
  "''sideways'' \<notin> set [''up'', ''down'', ''left'', ''right'']
   \<and> move b_slide ''sideways'' = Inr (False, b_slide)
   \<and> resolve_grid ''left'' (size_b b_slide) (grid b_slide) = Inr (grid b_slide, 0)
   \<and> move b_slide ''left'' = Inr (False, b_slide)
   \<and> move b_merge ''left'' =
       Inr (True, b_merge\<lparr>grid := [[4, 0, 0, 0], [0, 0, 0, 0], [0, 0, 0, 0], [0, 0, 0, 0]],
                         score := 4, highscore := 4, high_tile := 4\<rparr>)
   \<and> grid (b_merge\<lparr>grid := [[4, 0, 0, 0], [0, 0, 0, 0], [0, 0, 0, 0], [0, 0, 0, 0]],
                    score := 4, highscore := 4, high_tile := 4\<rparr>) \<noteq> grid b_merge"
proof -
  have inv: "''sideways'' \<notin> set [''up'', ''down'', ''left'', ''right'']"
    by simp
  have 1: "move b_slide ''sideways'' = Inr (False, b_slide)"
    using move_rejected_unchanged [of "''sideways''" b_slide, THEN conjunct1] inv
    by (rule mp)
  have 2: "move b_slide ''left'' = Inr (False, b_slide)"
    using move_rejected_unchanged [of "''left''" b_slide, THEN conjunct2, THEN conjunct1]
      resolve_b_slide_left
    by blast
  have 3: "grid (b_merge\<lparr>grid := [[4, 0, 0, 0], [0, 0, 0, 0], [0, 0, 0, 0], [0, 0, 0, 0]],
                    score := 4, highscore := 4, high_tile := 4\<rparr>) \<noteq> grid b_merge"
    using move_rejected_unchanged [of "''left''" b_merge, THEN conjunct2, THEN conjunct2,
        THEN conjunct2] move_b_merge_left
    by blast
  from inv 1 resolve_b_slide_left 2 move_b_merge_left 3 show ?thesis
    by (intro conjI)
qed



section \<open>Repeating a move\<close>

lemma move_left_wf:
  assumes "wf_board b"
  shows "\<exists>b'. move b ''left'' = Inr (map (\<lambda>l. fst (combine_line l)) (grid b) \<noteq> grid b, b')
           \<and> wf_board b' \<and> grid b' = map (\<lambda>l. fst (combine_line l)) (grid b)"
proof -
  have d: "''left'' \<in> set [''up'', ''down'', ''left'', ''right'']" by simp
  have h: "resolve_grid ''left'' (size_b b) (grid b) =
             Inr (map (\<lambda>l. fst (combine_line l)) (grid b),
                  sum_list (map (\<lambda>l. snd (combine_line l)) (grid b)))"
    using resolve_grid_horizontal [of "size_b b" "grid b" "''left''"] assms
    by (simp add: wf_board_def process_line_left)
  from assms d show ?thesis
  proof (cases rule: move_wf_cases)
    case (unchanged g' s)
    with h assms show ?thesis by simp
  next
    case (changed g' s m)
    with h show ?thesis by (simp add: wf_board_def)
  qed
qed

text \<open>
  Claim C5, as amended. On a well-formed board two calls of \<open>move('left')\<close> in a row both
  return, and the second returns true exactly when some row of the grid left by the first
  call holds two equal tiles next to each other; so it returns false whenever the first
  call left no such pair.
\<close>

theorem move_left_twice:
  assumes "wf_board b"
  shows "\<exists>ok1 b1 ok2 b2. move b ''left'' = Inr (ok1, b1) \<and> move b1 ''left'' = Inr (ok2, b2)
           \<and> (ok2 \<longleftrightarrow> (\<exists>row\<in>set (grid b1). adjacent_equal row))"
proof -
  obtain b1 where m1: "move b ''left'' = Inr (map (\<lambda>l. fst (combine_line l)) (grid b) \<noteq> grid b, b1)"
    and wf1: "wf_board b1" and g1: "grid b1 = map (\<lambda>l. fst (combine_line l)) (grid b)"
    using move_left_wf [OF assms] by blast
  obtain b2 where m2: "move b1 ''left'' = Inr (map (\<lambda>l. fst (combine_line l)) (grid b1) \<noteq> grid b1, b2)"
    using move_left_wf [OF wf1] by blast
  have comp: "compacted row" if "row \<in> set (grid b1)" for row
    using that unfolding g1 by (auto simp: compacted_combine_line)
  have "map (\<lambda>l. fst (combine_line l)) (grid b1) \<noteq> grid b1
        \<longleftrightarrow> (\<exists>row\<in>set (grid b1). adjacent_equal row)"
    unfolding map_changes_iff using comp combine_line_changes_iff by blast
  with m1 m2 show ?thesis by blast
qed

text \<open>
  The row \<open>[2, 2, 4, 0]\<close> becomes \<open>[4, 4, 0, 0]\<close>, which a second move to the left merges
  again: both calls return true.
\<close>

lemma move_b_twice_1:
  "move b_twice ''left'' =
     Inr (True, b_twice\<lparr>grid := [[4, 4, 0, 0], [0, 0, 0, 0], [0, 0, 0, 0], [0, 0, 0, 0]],
                       score := 4, highscore := 4, high_tile := 4\<rparr>)"
  by (simp add: b_twice_def move_eval)

lemma move_b_twice_2:
  "move (b_twice\<lparr>grid := [[4, 4, 0, 0], [0, 0, 0, 0], [0, 0, 0, 0], [0, 0, 0, 0]],
                 score := 4, highscore := 4, high_tile := 4\<rparr>) ''left'' =
     Inr (True, b_twice\<lparr>grid := [[8, 0, 0, 0], [0, 0, 0, 0], [0, 0, 0, 0], [0, 0, 0, 0]],
                       score := 12, highscore := 12, high_tile := 8\<rparr>)"
  by (simp add: b_twice_def move_eval)

theorem move_left_twice_counterexample:
  "move b_twice ''left'' =
     Inr (True, b_twice\<lparr>grid := [[4, 4, 0, 0], [0, 0, 0, 0], [0, 0, 0, 0], [0, 0, 0, 0]],
                       score := 4, highscore := 4, high_tile := 4\<rparr>)
   \<and> move (b_twice\<lparr>grid := [[4, 4, 0, 0], [0, 0, 0, 0], [0, 0, 0, 0], [0, 0, 0, 0]],
                   score := 4, highscore := 4, high_tile := 4\<rparr>) ''left'' =
     Inr (True, b_twice\<lparr>grid := [[8, 0, 0, 0], [0, 0, 0, 0], [0, 0, 0, 0], [0, 0, 0, 0]],
                       score := 12, highscore := 12, high_tile := 8\<rparr>)"
  using move_b_twice_1 move_b_twice_2 by (rule conjI)

theorem move_left_twice_witness:
  "wf_board b_slide
   \<and> (\<exists>ok1 b1 ok2 b2. move b_slide ''left'' = Inr (ok1, b1) \<and> move b1 ''left'' = Inr (ok2, b2)
        \<and> (ok2 \<longleftrightarrow> (\<exists>row\<in>set (grid b1). adjacent_equal row)))"
proof -
  have wf: "wf_board b_slide"
    unfolding b_slide_def by (rule wf_board_of4)
  from wf move_left_twice [OF wf] show ?thesis by (rule conjI)
qed

section \<open>Reaching 2048\<close>











section \<open>The terminal test (ai/spawner.py)\<close>

text \<open>\<open>np.any(board.grid == 0)\<close>.\<close>

definition any_empty :: "grid \<Rightarrow> bool" where
  "any_empty g = list_ex (list_ex (\<lambda>v. v = 0)) g"

text \<open>
  The loop of \<open>_is_terminal\<close> over the directions: each is tried on a deep copy of the
  board, so the board itself is the same in every iteration.
\<close>

fun terminal_loop :: "board \<Rightarrow> string list \<Rightarrow> py_error + bool" where
  "terminal_loop board [] = Inr True"
| "terminal_loop board (direction # rest) =
     (case move board direction of
        Inl e \<Rightarrow> Inl e
      | Inr (moved, temp_board) \<Rightarrow> if moved then Inr False else terminal_loop board rest)"

text \<open>\<open>AISpawner._is_terminal\<close>.\<close>

definition is_terminal :: "board \<Rightarrow> py_error + bool" where
  "is_terminal board =
     (if any_empty (grid board) then Inr False
      else terminal_loop board [''up'', ''down'', ''left'', ''right''])"

text \<open>
  \<open>board._grid[row, col] = value\<close>. The source writes only to cells it has read from the
  grid (the empty cells found by \<open>np.where\<close>), which are in range.
\<close>

definition set_cell :: "grid \<Rightarrow> nat \<Rightarrow> nat \<Rightarrow> int \<Rightarrow> grid" where
  "set_cell g row col v = g[row := (g ! row)[col := v]]"

text \<open>The full grid that alternates two values, \<open>a\<close> on the cells with even \<open>i + j\<close>.\<close>

definition checkerboard :: "nat \<Rightarrow> int \<Rightarrow> int \<Rightarrow> grid" where
  "checkerboard n a c = map (\<lambda>i. map (\<lambda>j. if even (i + j) then a else c) [0..<n]) [0..<n]"

text \<open>The direction would leave the grid of the board as it is.\<close>

definition unchanged_by :: "board \<Rightarrow> string \<Rightarrow> bool" where
  "unchanged_by b d \<longleftrightarrow> map_sum id fst (resolve_grid d (size_b b) (grid b)) = Inr (grid b)"

text \<open>Row \<open>i\<close> of the checkerboard.\<close>

definition alternating :: "nat \<Rightarrow> nat \<Rightarrow> int \<Rightarrow> int \<Rightarrow> line" where
  "alternating i n a c = map (\<lambda>j. if even (i + j) then a else c) [0..<n]"

text \<open>The two grids of the game-over tests.\<close>

definition b_checker :: board where
  "b_checker = board_of [[2, 4, 2, 4], [4, 2, 4, 2], [2, 4, 2, 4], [4, 2, 4, 2]]"

definition b_checker_hole :: board where
  "b_checker_hole = board_of [[2, 4, 2, 4], [4, 2, 4, 2], [2, 4, 2, 0], [4, 2, 4, 2]]"

lemma terminal_loop_wf:
  assumes "wf_board b" "set ds \<subseteq> set [''up'', ''down'', ''left'', ''right'']"
  shows "terminal_loop b ds = Inr (list_all (unchanged_by b) ds)"
  using assms(2)
proof (induction ds)
  case Nil
  then show ?case by simp
next
  case (Cons d ds)
  then have d: "d \<in> set [''up'', ''down'', ''left'', ''right'']" by simp
  from assms(1) d show ?case
  proof (cases rule: move_wf_cases)
    case (unchanged g' s)
    then show ?thesis using Cons by (simp add: unchanged_by_def)
  next
    case (changed g' s m)
    then show ?thesis by (simp add: unchanged_by_def)
  qed
qed

lemma is_terminal_wf:
  "wf_board b \<Longrightarrow>
   is_terminal b = Inr (\<not> any_empty (grid b)
      \<and> list_all (unchanged_by b) [''up'', ''down'', ''left'', ''right''])"
  unfolding is_terminal_def by (simp only: terminal_loop_wf subset_refl if_distrib sum.inject) auto

subsection \<open>The checkerboard\<close>

lemma distinct_adj_alternating: "a \<noteq> c \<Longrightarrow> distinct_adj (alternating i n a c)"
  by (auto simp: distinct_adj_conv_nth alternating_def)

lemma nonzero_alternating: "a \<noteq> 0 \<Longrightarrow> c \<noteq> 0 \<Longrightarrow> 0 \<notin> set (alternating i n a c)"
  by (auto simp: alternating_def)

lemma combine_line_fixed:
  assumes "0 \<notin> set l" "distinct_adj l"
  shows "fst (combine_line l) = l"
  using combine_line_fixed_iff [OF assms(1), of 0] assms(2) by simp

lemma process_line_fixed:
  assumes "0 \<notin> set l" "distinct_adj l"
  shows "fst (process_line d l) = l"
proof -
  have "fst (combine_line (rev l)) = rev l"
    using assms by (intro combine_line_fixed) simp_all
  moreover have "fst (combine_line l) = l"
    using assms by (rule combine_line_fixed)
  ultimately show ?thesis
    by (simp add: process_line_def Let_def split_def)
qed

lemma checkerboard_rows: "checkerboard n a c = map (\<lambda>i. alternating i n a c) [0..<n]"
  by (simp add: checkerboard_def alternating_def)

lemma wf_grid_checkerboard: "wf_grid n (checkerboard n a c)"
  by (simp add: wf_grid_def checkerboard_def list_all_iff)

lemma transpose_g_checkerboard: "transpose_g (checkerboard n a c) = checkerboard n a c"
proof (rule wf_grid_eqI [of n])
  show "wf_grid n (transpose_g (checkerboard n a c))"
    by (intro wf_grid_transpose_g wf_grid_checkerboard)
  show "wf_grid n (checkerboard n a c)" by (rule wf_grid_checkerboard)
  fix i j assume "i < n" "j < n"
  then show "transpose_g (checkerboard n a c) ! i ! j = checkerboard n a c ! i ! j"
    using nth_nth_transpose_g [OF wf_grid_checkerboard, of j n i a c]
    by (simp add: checkerboard_def add.commute)
qed

lemma map_process_line_checkerboard:
  assumes "a \<noteq> 0" "c \<noteq> 0" "a \<noteq> c"
  shows "map (\<lambda>l. fst (process_line d l)) (checkerboard n a c) = checkerboard n a c"
  unfolding checkerboard_rows
  using assms
  by (simp add: process_line_fixed distinct_adj_alternating nonzero_alternating)

lemma resolve_grid_checkerboard:
  assumes "a \<noteq> 0" "c \<noteq> 0" "a \<noteq> c"
  shows "map_sum id fst (resolve_grid d n (checkerboard n a c)) = Inr (checkerboard n a c)"
proof (cases "d \<in> set [''up'', ''down'']")
  case True
  show ?thesis
    using resolve_grid_vertical [OF wf_grid_checkerboard True, of n a c] assms
    by (simp add: transpose_g_checkerboard map_process_line_checkerboard)
next
  case False
  show ?thesis
    using resolve_grid_horizontal [OF wf_grid_checkerboard False, of n a c] assms
    by (simp add: map_process_line_checkerboard)
qed

lemma any_empty_checkerboard:
  "a \<noteq> 0 \<Longrightarrow> c \<noteq> 0 \<Longrightarrow> \<not> any_empty (checkerboard n a c)"
  by (auto simp: any_empty_def checkerboard_def list_ex_iff)

lemma any_empty_set_cell:
  "wf_grid n g \<Longrightarrow> i < n \<Longrightarrow> j < n \<Longrightarrow> any_empty (set_cell g i j 0)"
  unfolding any_empty_def set_cell_def list_ex_iff wf_grid_def list_all_iff
  by (metis length_list_update nth_list_update_eq nth_mem)

text \<open>
  Claim C4. On a well-formed board \<open>_is_terminal\<close> returns true exactly when the grid has
  no empty cell and none of the four directions changes the grid. It returns true on
  every full checkerboard of two different nonzero values, and false on such a grid with
  any one cell set to 0.
\<close>

theorem is_terminal_iff:
  "(wf_board b \<longrightarrow>
      is_terminal b = Inr (\<not> any_empty (grid b)
        \<and> list_all (unchanged_by b) [''up'', ''down'', ''left'', ''right'']))
   \<and> (a \<noteq> 0 \<and> c \<noteq> 0 \<and> a \<noteq> c \<longrightarrow>
        is_terminal (b\<lparr>size_b := n, grid := checkerboard n a c\<rparr>) = Inr True)
   \<and> (i < n \<and> j < n \<longrightarrow>
        is_terminal (b\<lparr>size_b := n, grid := set_cell (checkerboard n a c) i j 0\<rparr>)
          = Inr False)"
proof (intro conjI impI)
  assume "wf_board b"
  then show "is_terminal b = Inr (\<not> any_empty (grid b)
        \<and> list_all (unchanged_by b) [''up'', ''down'', ''left'', ''right''])"
    by (rule is_terminal_wf)
next
  assume ac: "a \<noteq> 0 \<and> c \<noteq> 0 \<and> a \<noteq> c"
  let ?b = "b\<lparr>size_b := n, grid := checkerboard n a c\<rparr>"
  have wf: "wf_board ?b" by (simp add: wf_board_def wf_grid_checkerboard)
  have "unchanged_by ?b d" for d
    using resolve_grid_checkerboard [of a c d n] ac by (simp add: unchanged_by_def)
  then have "list_all (unchanged_by ?b) [''up'', ''down'', ''left'', ''right'']"
    by (simp add: list_all_iff)
  moreover have "\<not> any_empty (grid ?b)"
    using ac by (simp add: any_empty_checkerboard)
  ultimately show "is_terminal ?b = Inr True"
    unfolding is_terminal_wf [OF wf] by simp
next
  assume ij: "i < n \<and> j < n"
  have "any_empty (set_cell (checkerboard n a c) i j 0)"
    using ij by (intro any_empty_set_cell [of n]) (simp_all add: wf_grid_checkerboard)
  then show "is_terminal (b\<lparr>size_b := n, grid := set_cell (checkerboard n a c) i j 0\<rparr>)
          = Inr False"
    by (simp add: is_terminal_def)
qed

lemma checkerboard_4_2_4:
  "b_slide\<lparr>size_b := 4, grid := checkerboard 4 2 4\<rparr> = b_checker"
  by (simp add: b_slide_def b_checker_def board_of_def checkerboard_def upt4)

lemma checkerboard_4_2_4_hole:
  "b_slide\<lparr>size_b := 4, grid := set_cell (checkerboard 4 2 4) 2 3 0\<rparr> = b_checker_hole"
  by (simp add: b_slide_def b_checker_hole_def board_of_def checkerboard_def upt4 set_cell_def)

theorem is_terminal_iff_witness:
  "wf_board b_slide \<and> is_terminal b_slide = Inr False
   \<and> wf_board b_checker \<and> is_terminal b_checker = Inr True
   \<and> is_terminal b_checker_hole = Inr False"
proof -
  have wfs: "wf_board b_slide"
    unfolding b_slide_def by (rule wf_board_of4)
  have "any_empty (grid b_slide)"
    by (simp add: b_slide_def board_of_def any_empty_def)
  with is_terminal_iff [of b_slide 2 4 4 2 3] wfs have 0: "is_terminal b_slide = Inr False"
    by simp
  note t = is_terminal_iff [of b_slide 2 4 4 2 3]
  have wf: "wf_board b_checker"
    unfolding b_checker_def by (rule wf_board_of4)
  have "(2::int) \<noteq> 0 \<and> (4::int) \<noteq> 0 \<and> (2::int) \<noteq> 4" by simp
  with t have 1: "is_terminal b_checker = Inr True"
    unfolding checkerboard_4_2_4 by blast
  have "(2::nat) < 4 \<and> (3::nat) < 4" by simp
  with t have 2: "is_terminal b_checker_hole = Inr False"
    unfolding checkerboard_4_2_4_hole by blast
  from wfs 0 wf 1 2 show ?thesis by (intro conjI)
qed

section \<open>The spawner (ai/spawner.py)\<close>

text \<open>
  The source draws from numpy's global random generator. The model takes the draws from a
  tape of natural numbers that is passed along and returned; an exhausted tape keeps
  giving 0. Every outcome the generator can produce is the outcome of some tape.
\<close>

type_synonym rng = "nat list"

fun next_raw :: "rng \<Rightarrow> nat \<times> rng" where
  "next_raw [] = (0, [])"
| "next_raw (u # rest) = (u, rest)"

text \<open>\<open>np.random.choice([2, 4], p=[0.9, 0.1])\<close>: one draw in ten gives 4.\<close>

definition random_choice_2_4 :: "rng \<Rightarrow> int \<times> rng" where
  "random_choice_2_4 rng = (let (u, rng') = next_raw rng in (if u mod 10 = 9 then 4 else 2, rng'))"

text \<open>\<open>np.random.randint(n)\<close>, for \<open>n > 0\<close>.\<close>

definition randint :: "nat \<Rightarrow> rng \<Rightarrow> nat \<times> rng" where
  "randint n rng = (let (u, rng') = next_raw rng in (u mod n, rng'))"

text \<open>\<open>np.random.choice(num_cells, k, replace=False)\<close>, applied to the cells themselves.\<close>

fun random_sample :: "'a list \<Rightarrow> nat \<Rightarrow> rng \<Rightarrow> 'a list \<times> rng" where
  "random_sample pool 0 rng = ([], rng)"
| "random_sample pool (Suc k) rng =
     (if pool = [] then ([], rng)
      else (let (i, rng1) = randint (length pool) rng;
                (picked, rng2) = random_sample (take i pool @ drop (Suc i) pool) k rng1
            in (pool ! i # picked, rng2)))"

text \<open>\<open>list(zip(*np.where(board.grid == 0)))\<close>: the empty cells in row-major order.\<close>

definition empty_cells :: "grid \<Rightarrow> (nat \<times> nat) list" where
  "empty_cells g =
     concat (map (\<lambda>row. map (\<lambda>col. (row, col))
                          (filter (\<lambda>col. g ! row ! col = 0) [0..<length (g ! row)]))
                 [0..<length g])"

text \<open>
  The heuristic computes in floating point what is computed here on the reals; the integer
  terms are exact in both.

  \<open>_monotonicity\<close>: for one line, the total of the decreases and the total of the increases
  between neighbours; the grid sums them over the rows and over the columns.
\<close>

fun monotonicity_line :: "line \<Rightarrow> int \<times> int" where
  "monotonicity_line (x # y # rest) =
     (let (decrease, increase) = monotonicity_line (y # rest)
      in if x > y then (decrease + (x - y), increase) else (decrease, increase + (y - x)))"
| "monotonicity_line _ = (0, 0)"

definition monotonicity :: "grid \<Rightarrow> int" where
  "monotonicity g =
     (let rows = map monotonicity_line g;
          cols = map monotonicity_line (transpose_g g)
      in max (sum_list (map fst rows)) (sum_list (map snd rows))
         + max (sum_list (map fst cols)) (sum_list (map snd cols)))"

text \<open>\<open>_smoothness\<close>: each pair of neighbouring tiles is counted once.\<close>

fun smoothness_line :: "line \<Rightarrow> real" where
  "smoothness_line (x # y # rest) =
     (if x \<noteq> 0 \<and> y \<noteq> 0 then \<bar>log 2 (real_of_int x) - log 2 (real_of_int y)\<bar> else 0)
     + smoothness_line (y # rest)"
| "smoothness_line _ = 0"

definition smoothness :: "grid \<Rightarrow> real" where
  "smoothness g =
     - (sum_list (map smoothness_line g) + sum_list (map smoothness_line (transpose_g g)))"

text \<open>\<open>[grid[0, 0], grid[0, -1], grid[-1, 0], grid[-1, -1]]\<close>, of a grid with a cell.\<close>

definition corners :: "grid \<Rightarrow> int list" where
  "corners g = [hd (hd g), last (hd g), hd (last g), last (last g)]"

definition max_tile_corner_bonus :: "grid \<Rightarrow> py_error + int" where
  "max_tile_corner_bonus g =
     (case grid_max g of
        Inl e \<Rightarrow> Inl e
      | Inr max_val \<Rightarrow> Inr (if max_val \<in> set (corners g) then 1 else 0))"

text \<open>\<open>_is_organized\<close>.\<close>

definition is_organized :: "line \<Rightarrow> bool" where
  "is_organized line =
     (let non_zero = filter (\<lambda>v. v \<noteq> 0) line
      in if length non_zero \<le> 1 then True
         else (let diffs = map2 (\<lambda>a b. b - a) non_zero (tl non_zero);
                   increasing = length (filter (\<lambda>d. d > 0) diffs);
                   decreasing = length (filter (\<lambda>d. d < 0) diffs);
                   threshold = 0.7 * real (length diffs)
               in real increasing \<ge> threshold \<or> real decreasing \<ge> threshold))"

text \<open>\<open>np.argwhere(grid >= 64)\<close>.\<close>

definition high_positions :: "grid \<Rightarrow> (nat \<times> nat) list" where
  "high_positions g =
     concat (map (\<lambda>row. map (\<lambda>col. (row, col))
                          (filter (\<lambda>col. g ! row ! col \<ge> 64) [0..<length (g ! row)]))
                 [0..<length g])"

text \<open>\<open>np.std\<close>: the population standard deviation of the flattened array.\<close>

definition std :: "real list \<Rightarrow> real" where
  "std xs = (let n = real (length xs); mean = sum_list xs / n
             in sqrt (sum_list (map (\<lambda>x. (x - mean)\<^sup>2) xs) / n))"

text \<open>\<open>_evaluate_board\<close>; \<open>np.max\<close> raises ValueError on a grid without cells.\<close>

definition evaluate_board :: "board \<Rightarrow> py_error + real" where
  "evaluate_board board =
     (let g = grid board;
          s0 = real_of_int (score board) * 2.0;
          empty_tiles = length (filter (\<lambda>v. v = 0) (concat g));
          s1 = s0 + real (empty_tiles * 500);
          s2 = s1 + real_of_int (monotonicity g * 100);
          s3 = s2 + smoothness g * 30
      in case max_tile_corner_bonus g of
           Inl e \<Rightarrow> Inl e
         | Inr bonus \<Rightarrow>
            (case grid_max g of
               Inl e \<Rightarrow> Inl e
             | Inr max_val \<Rightarrow>
                (let s4 = s3 + real_of_int (bonus * 1000);
                     s5 = (if max_val \<notin> set (corners g) then s4 - 2000 else s4);
                     positions = high_positions g;
                     s6 = (if length positions > 1
                           then s5 - std (concat (map (\<lambda>(r, c). [real r, real c]) positions)) * 50
                           else s5);
                     s7 = s6 + real (200 * length (filter is_organized g));
                     s8 = s7 + real (200 * length (filter is_organized (transpose_g g)))
                 in Inr s8)))"

text \<open>
  \<open>_max_node\<close>. \<open>None\<close> stands for \<open>float('-inf')\<close>; \<open>recurse\<close> is the call
  \<open>self._expectimax(temp_board, depth - 1, False)\<close>.
\<close>

fun max_node_loop ::
  "(board \<Rightarrow> rng \<Rightarrow> py_error + (real \<times> rng)) \<Rightarrow> board \<Rightarrow> string list \<Rightarrow> real option \<Rightarrow> rng
    \<Rightarrow> py_error + (real option \<times> rng)" where
  "max_node_loop recurse board [] max_value rng = Inr (max_value, rng)"
| "max_node_loop recurse board (direction # rest) max_value rng =
     (case move board direction of
        Inl e \<Rightarrow> Inl e
      | Inr (moved, temp_board) \<Rightarrow>
          if moved
          then (case recurse temp_board rng of
                  Inl e \<Rightarrow> Inl e
                | Inr (v, rng') \<Rightarrow>
                    max_node_loop recurse board rest
                      (Some (case max_value of None \<Rightarrow> v | Some m \<Rightarrow> max m v)) rng')
          else max_node_loop recurse board rest max_value rng)"

definition max_node ::
  "(board \<Rightarrow> rng \<Rightarrow> py_error + (real \<times> rng)) \<Rightarrow> board \<Rightarrow> rng \<Rightarrow> py_error + (real \<times> rng)" where
  "max_node recurse board rng =
     (case max_node_loop recurse board [''up'', ''down'', ''left'', ''right''] None rng of
        Inl e \<Rightarrow> Inl e
      | Inr (None, rng') \<Rightarrow> map_sum id (\<lambda>v. (v, rng')) (evaluate_board board)
      | Inr (Some max_value, rng') \<Rightarrow> Inr (max_value, rng'))"

text \<open>\<open>_chance_node\<close>; \<open>recurse\<close> is \<open>self._expectimax(temp_board, depth - 1, True)\<close>.\<close>

fun chance_node_loop ::
  "(board \<Rightarrow> rng \<Rightarrow> py_error + (real \<times> rng)) \<Rightarrow> board \<Rightarrow> (nat \<times> nat) list \<Rightarrow> real \<Rightarrow> rng
    \<Rightarrow> py_error + (real \<times> rng)" where
  "chance_node_loop recurse board [] total_value rng = Inr (total_value, rng)"
| "chance_node_loop recurse board ((row, col) # rest) total_value rng =
     (case recurse (board\<lparr>grid := set_cell (grid board) row col 2\<rparr>) rng of
        Inl e \<Rightarrow> Inl e
      | Inr (value_2, rng1) \<Rightarrow>
          (case recurse (board\<lparr>grid := set_cell (grid board) row col 4\<rparr>) rng1 of
             Inl e \<Rightarrow> Inl e
           | Inr (value_4, rng2) \<Rightarrow>
               chance_node_loop recurse board rest
                 (total_value + (0.9 * value_2 + 0.1 * value_4)) rng2))"

definition chance_node ::
  "(board \<Rightarrow> rng \<Rightarrow> py_error + (real \<times> rng)) \<Rightarrow> board \<Rightarrow> rng \<Rightarrow> py_error + (real \<times> rng)" where
  "chance_node recurse board rng =
     (let cells = empty_cells (grid board)
      in if cells = [] then map_sum id (\<lambda>v. (v, rng)) (evaluate_board board)
         else (let (sampled, rng1) =
                     (if length cells > 6 then random_sample cells 6 rng else (cells, rng))
               in case chance_node_loop recurse board sampled 0 rng1 of
                    Inl e \<Rightarrow> Inl e
                  | Inr (total_value, rng2) \<Rightarrow> Inr (total_value / real (length sampled), rng2)))"

text \<open>\<open>_expectimax\<close>, by recursion on the remaining depth.\<close>

primrec expectimax :: "nat \<Rightarrow> board \<Rightarrow> bool \<Rightarrow> rng \<Rightarrow> py_error + (real \<times> rng)" where
  "expectimax 0 board is_player_turn rng = map_sum id (\<lambda>v. (v, rng)) (evaluate_board board)"
| "expectimax (Suc depth) board is_player_turn rng =
     (case is_terminal board of
        Inl e \<Rightarrow> Inl e
      | Inr terminal \<Rightarrow>
          if terminal then map_sum id (\<lambda>v. (v, rng)) (evaluate_board board)
          else if is_player_turn then max_node (\<lambda>b. expectimax depth b False) board rng
          else chance_node (\<lambda>b. expectimax depth b True) board rng)"

text \<open>\<open>_evaluate_spawn\<close>.\<close>

definition evaluate_spawn ::
  "spawner \<Rightarrow> board \<Rightarrow> nat \<Rightarrow> nat \<Rightarrow> int \<Rightarrow> rng \<Rightarrow> py_error + (real \<times> rng)" where
  "evaluate_spawn self board row col v rng =
     expectimax (search_depth self) (board\<lparr>grid := set_cell (grid board) row col v\<rparr>) True rng"

text \<open>The loop of \<open>spawn_tile\<close> that fills \<open>scores\<close>.\<close>

fun score_cells ::
  "spawner \<Rightarrow> board \<Rightarrow> (nat \<times> nat) list \<Rightarrow> (real \<times> nat \<times> nat) list \<Rightarrow> rng
    \<Rightarrow> py_error + ((real \<times> nat \<times> nat) list \<times> rng)" where
  "score_cells self board [] scores rng = Inr (scores, rng)"
| "score_cells self board ((row, col) # rest) scores rng =
     (case evaluate_spawn self board row col 2 rng of
        Inl e \<Rightarrow> Inl e
      | Inr (score_2, rng1) \<Rightarrow>
          (case evaluate_spawn self board row col 4 rng1 of
             Inl e \<Rightarrow> Inl e
           | Inr (score_4, rng2) \<Rightarrow>
               score_cells self board rest
                 (scores @ [(0.9 * score_2 + 0.1 * score_4, row, col)]) rng2))"

text \<open>\<open>scores.sort(key=lambda x: x[0])\<close> is a stable sort, as \<open>sort_key\<close> is.\<close>

definition best_pos :: "spawner \<Rightarrow> (real \<times> nat \<times> nat) list \<Rightarrow> real \<times> nat \<times> nat" where
  "best_pos self scores =
     (let sorted = sort_key fst scores
      in if sp_difficulty self = ''easy'' then last sorted else hd sorted)"

text \<open>\<open>_spawn_random\<close>.\<close>

definition spawn_random :: "board \<Rightarrow> rng \<Rightarrow> py_error + (bool \<times> board \<times> rng)" where
  "spawn_random board rng =
     (let cells = empty_cells (grid board)
      in if cells = [] then Inr (False, board, rng)
         else (let (index, rng1) = randint (length cells) rng;
                   (row, col) = cells ! index;
                   (v, rng2) = random_choice_2_4 rng1
               in Inr (True, board\<lparr>grid := set_cell (grid board) row col v\<rparr>, rng2)))"

text \<open>\<open>AISpawner.spawn_tile\<close>: the returned flag, the board and the tape after the call.\<close>

definition spawn_tile :: "spawner \<Rightarrow> board \<Rightarrow> rng \<Rightarrow> py_error + (bool \<times> board \<times> rng)" where
  "spawn_tile self board rng =
     (if sp_difficulty self = ''medium'' then spawn_random board rng
      else
        (let cells = empty_cells (grid board)
         in if cells = [] then Inr (False, board, rng)
            else
              (case score_cells self board cells [] rng of
                 Inl e \<Rightarrow> Inl e
               | Inr (scores, rng1) \<Rightarrow>
                   (let (_, row, col) = best_pos self scores;
                        (v, rng2) = random_choice_2_4 rng1
                    in Inr (True, board\<lparr>grid := set_cell (grid board) row col v\<rparr>, rng2)))))"

text \<open>An easy spawner that looks one move ahead, and the empty board of a new game.\<close>

definition easy1 :: spawner where
  "easy1 = \<lparr>sp_difficulty = ''easy'', search_depth = 1, debug = False\<rparr>"

definition b_empty :: board where
  "b_empty = board_of [[0, 0, 0, 0], [0, 0, 0, 0], [0, 0, 0, 0], [0, 0, 0, 0]]"

text \<open>\<open>np.count_nonzero(grid)\<close>.\<close>

definition count_nonzero :: "grid \<Rightarrow> nat" where
  "count_nonzero g = length (filter (\<lambda>v. v \<noteq> 0) (concat g))"

section \<open>Properties of the spawner\<close>

lemma mem_empty_cells:
  "(r, c) \<in> set (empty_cells g) \<longleftrightarrow> r < length g \<and> c < length (g ! r) \<and> g ! r ! c = 0"
  by (auto simp: empty_cells_def)

lemma empty_cells_Nil_iff: "empty_cells g = [] \<longleftrightarrow> \<not> any_empty g"
proof -
  have "any_empty g \<longleftrightarrow> (\<exists>r c. (r, c) \<in> set (empty_cells g))"
    unfolding mem_empty_cells any_empty_def list_ex_iff
    by (metis in_set_conv_nth)
  then show ?thesis
    by (metis list.set_intros(1) neq_Nil_conv empty_iff empty_set surj_pair)
qed

lemma wf_grid_set_cell: "wf_grid n g \<Longrightarrow> wf_grid n (set_cell g r c v)"
proof -
  assume wf: "wf_grid n g"
  have "length (g[r := (g ! r)[c := v]] ! i) = n" if "i < length g" for i
    using that wf by (cases "i = r") (simp_all add: wf_grid_def list_all_length)
  then show ?thesis
    using wf by (simp add: wf_grid_def set_cell_def list_all_length)
qed

lemma count_line_update:
  assumes "c < length l" "l ! c = 0" "v \<noteq> 0"
  shows "length (filter (\<lambda>v. v \<noteq> 0) (l[c := v])) = Suc (length (filter (\<lambda>v. v \<noteq> (0::int)) l))"
proof -
  have "l = take c l @ l ! c # drop (Suc c) l"
    using assms(1) by (simp add: id_take_nth_drop [symmetric])
  then have l: "l = take c l @ 0 # drop (Suc c) l" using assms(2) by simp
  have "l[c := v] = take c l @ v # drop (Suc c) l"
    using assms(1) by (simp add: upd_conv_take_nth_drop)
  then show ?thesis
    using assms(3) by (subst (2) l) simp
qed

lemma count_nonzero_set_cell:
  assumes "r < length g" "c < length (g ! r)" "g ! r ! c = 0" "v \<noteq> 0"
  shows "count_nonzero (set_cell g r c v) = Suc (count_nonzero g)"
proof -
  have g: "g = take r g @ g ! r # drop (Suc r) g"
    using assms(1) by (simp add: id_take_nth_drop [symmetric])
  have "set_cell g r c v = take r g @ (g ! r)[c := v] # drop (Suc r) g"
    using assms(1) by (simp add: set_cell_def upd_conv_take_nth_drop)
  then have "count_nonzero (set_cell g r c v)
      = length (filter (\<lambda>v. v \<noteq> 0) (concat (take r g)))
        + Suc (length (filter (\<lambda>v. v \<noteq> 0) (g ! r)))
        + length (filter (\<lambda>v. v \<noteq> 0) (concat (drop (Suc r) g)))"
    using count_line_update [OF assms(2-4)] by (simp add: count_nonzero_def)
  also have "\<dots> = Suc (count_nonzero g)"
    by (subst (4) g) (simp add: count_nonzero_def)
  finally show ?thesis .
qed

lemma nth_set_cell_other:
  "(i, j) \<noteq> (r, c) \<Longrightarrow> set_cell g r c v ! i ! j = g ! i ! j"
  by (cases "i = r"; cases "r < length g") (auto simp: set_cell_def list_update_beyond)

lemma evaluate_board_total:
  assumes "wf_board b" "0 < size_b b"
  shows "\<exists>v. evaluate_board b = Inr v"
proof -
  obtain m where "grid_max (grid b) = Inr m"
    using grid_max_wf [of "size_b b" "grid b"] assms by (auto simp: wf_board_def)
  then show ?thesis
    by (simp add: evaluate_board_def max_tile_corner_bonus_def Let_def)
qed

lemma move_wf_total:
  assumes "wf_board b"
  shows "\<exists>ok b'. move b d = Inr (ok, b') \<and> wf_board b' \<and> size_b b' = size_b b"
proof (cases "d \<in> set [''up'', ''down'', ''left'', ''right'']")
  case False
  then have "move b d = Inr (False, b)" by (rule move_invalid)
  with assms show ?thesis by blast
next
  case True
  from assms True show ?thesis
    by (cases rule: move_wf_cases) (use assms in \<open>auto simp: wf_board_def\<close>)
qed

text \<open>\<open>recurse\<close> returns on every well-formed board of side \<open>n\<close>.\<close>

definition total_on :: "nat \<Rightarrow> (board \<Rightarrow> rng \<Rightarrow> py_error + (real \<times> rng)) \<Rightarrow> bool" where
  "total_on n recurse \<longleftrightarrow>
     (\<forall>b rng. wf_board b \<and> size_b b = n \<longrightarrow> (\<exists>v rng'. recurse b rng = Inr (v, rng')))"

lemma max_node_loop_total:
  assumes "total_on n recurse" "wf_board b" "size_b b = n"
  shows "\<exists>m rng'. max_node_loop recurse b ds mv rng = Inr (m, rng')"
proof (induction ds arbitrary: mv rng)
  case Nil
  then show ?case by simp
next
  case (Cons d ds)
  obtain ok b' where m: "move b d = Inr (ok, b')" and wf: "wf_board b'" "size_b b' = size_b b"
    using move_wf_total [OF assms(2)] by blast
  show ?case
  proof (cases ok)
    case False
    with m Cons show ?thesis by simp
  next
    case True
    obtain v rng1 where "recurse b' rng = Inr (v, rng1)"
      using assms(1,3) wf unfolding total_on_def by metis
    with m True Cons show ?thesis by simp
  qed
qed

lemma max_node_total:
  assumes "total_on n recurse" "wf_board b" "size_b b = n" "0 < n"
  shows "\<exists>v rng'. max_node recurse b rng = Inr (v, rng')"
proof -
  obtain m rng1 where l: "max_node_loop recurse b [''up'', ''down'', ''left'', ''right''] None rng
      = Inr (m, rng1)"
    using max_node_loop_total [OF assms(1-3)] by blast
  obtain v where "evaluate_board b = Inr v"
    using evaluate_board_total assms by blast
  with l show ?thesis by (cases m) (simp_all add: max_node_def)
qed

lemma chance_node_loop_total:
  assumes "total_on n recurse" "wf_board b" "size_b b = n"
  shows "\<exists>v rng'. chance_node_loop recurse b cells tv rng = Inr (v, rng')"
proof (induction cells arbitrary: tv rng)
  case Nil
  then show ?case by simp
next
  case (Cons cell cells)
  obtain row col where cell: "cell = (row, col)" by (cases cell)
  have wf: "wf_board (b\<lparr>grid := set_cell (grid b) row col v\<rparr>)
            \<and> size_b (b\<lparr>grid := set_cell (grid b) row col v\<rparr>) = n" for v
    using assms(2,3) by (simp add: wf_board_def wf_grid_set_cell)
  obtain v2 rng1 where 2: "recurse (b\<lparr>grid := set_cell (grid b) row col 2\<rparr>) rng = Inr (v2, rng1)"
    using assms(1) wf unfolding total_on_def by metis
  obtain v4 rng2 where 4: "recurse (b\<lparr>grid := set_cell (grid b) row col 4\<rparr>) rng1 = Inr (v4, rng2)"
    using assms(1) wf unfolding total_on_def by metis
  show ?case using Cons 2 4 by (simp add: cell)
qed

lemma chance_node_total:
  assumes "total_on n recurse" "wf_board b" "size_b b = n" "0 < n"
  shows "\<exists>v rng'. chance_node recurse b rng = Inr (v, rng')"
proof -
  obtain v where e: "evaluate_board b = Inr v"
    using evaluate_board_total assms by blast
  obtain sampled rng1 where s: "(if length (empty_cells (grid b)) > 6
      then random_sample (empty_cells (grid b)) 6 rng else (empty_cells (grid b), rng))
      = (sampled, rng1)"
    by (metis surj_pair)
  obtain tv rng2 where "chance_node_loop recurse b sampled 0 rng1 = Inr (tv, rng2)"
    using chance_node_loop_total [OF assms(1-3)] by blast
  with e s show ?thesis
    by (simp add: chance_node_def Let_def)
qed

lemma expectimax_total: "0 < n \<Longrightarrow> total_on n (\<lambda>b. expectimax d b t)"
proof (induction d arbitrary: t)
  case 0
  then show ?case
    unfolding total_on_def using evaluate_board_total by (metis expectimax.simps(1) map_sum.simps(2))
next
  case (Suc d)
  show ?case
    unfolding total_on_def
  proof (intro allI impI)
    fix b rng assume b: "wf_board b \<and> size_b b = n"
    obtain v where e: "evaluate_board b = Inr v"
      using evaluate_board_total b Suc.prems by blast
    obtain tl where tm: "is_terminal b = Inr tl"
      using is_terminal_wf b by blast
    obtain v1 r1 where mx: "max_node (\<lambda>b. expectimax d b False) b rng = Inr (v1, r1)"
      using max_node_total [OF Suc.IH [OF Suc.prems]] b Suc.prems by blast
    obtain v2 r2 where ch: "chance_node (\<lambda>b. expectimax d b True) b rng = Inr (v2, r2)"
      using chance_node_total [OF Suc.IH [OF Suc.prems]] b Suc.prems by blast
    show "\<exists>v rng'. expectimax (Suc d) b t rng = Inr (v, rng')"
      using e tm mx ch by simp
  qed
qed

lemma evaluate_spawn_total:
  assumes "wf_board b" "0 < size_b b"
  shows "\<exists>s rng'. evaluate_spawn sp b row col v rng = Inr (s, rng')"
proof -
  have "wf_board (b\<lparr>grid := set_cell (grid b) row col v\<rparr>)
        \<and> size_b (b\<lparr>grid := set_cell (grid b) row col v\<rparr>) = size_b b"
    using assms by (simp add: wf_board_def wf_grid_set_cell)
  then show ?thesis
    using expectimax_total [OF assms(2), of "search_depth sp" True]
    unfolding total_on_def evaluate_spawn_def by blast
qed

lemma score_cells_total:
  assumes "wf_board b" "0 < size_b b"
  shows "\<exists>scores rng'. score_cells sp b cells acc rng = Inr (scores, rng')
           \<and> map snd scores = map snd acc @ cells"
proof (induction cells arbitrary: acc rng)
  case Nil
  then show ?case by simp
next
  case (Cons cell cells)
  obtain row col where cell: "cell = (row, col)" by (cases cell)
  obtain s2 rng1 where 2: "evaluate_spawn sp b row col 2 rng = Inr (s2, rng1)"
    using evaluate_spawn_total [OF assms] by blast
  obtain s4 rng2 where 4: "evaluate_spawn sp b row col 4 rng1 = Inr (s4, rng2)"
    using evaluate_spawn_total [OF assms] by blast
  show ?case
    using Cons [of "acc @ [(0.9 * s2 + 0.1 * s4, row, col)]" rng2] 2 4
    by (simp add: cell)
qed

lemma best_pos_mem: "scores \<noteq> [] \<Longrightarrow> best_pos sp scores \<in> set scores"
proof -
  assume "scores \<noteq> []"
  then have ne: "sort_key fst scores \<noteq> []"
    by (metis length_sort length_0_conv)
  have "last (sort_key fst scores) \<in> set scores" "hd (sort_key fst scores) \<in> set scores"
    using last_in_set [OF ne] hd_in_set [OF ne] by simp_all
  then show ?thesis by (simp add: best_pos_def Let_def)
qed

lemma random_choice_2_4_range: "fst (random_choice_2_4 rng) \<in> {2, 4}"
  by (simp add: random_choice_2_4_def split_def Let_def)

lemma randint_range: "0 < n \<Longrightarrow> fst (randint n rng) < n"
  by (simp add: randint_def split_def Let_def)


text \<open>
  \<open>b'\<close> is \<open>b\<close> with one empty cell of the grid set to 2 or 4: that cell holds the new
  value, every other cell is as before, and one more cell is nonzero.
\<close>

definition placed :: "board \<Rightarrow> board \<Rightarrow> bool" where
  "placed b b' \<longleftrightarrow>
     (\<exists>row col v. row < size_b b \<and> col < size_b b \<and> grid b ! row ! col = 0 \<and> v \<in> {2, 4}
        \<and> b' = b\<lparr>grid := set_cell (grid b) row col v\<rparr>
        \<and> grid b' ! row ! col = v
        \<and> (\<forall>i j. (i, j) \<noteq> (row, col) \<longrightarrow> grid b' ! i ! j = grid b ! i ! j)
        \<and> count_nonzero (grid b') = count_nonzero (grid b) + 1)"

lemma placedI:
  assumes "wf_board b" "(row, col) \<in> set (empty_cells (grid b))" "v \<in> {2, 4}"
  shows "placed b (b\<lparr>grid := set_cell (grid b) row col v\<rparr>)"
proof -
  have r: "row < length (grid b)" and c: "col < length (grid b ! row)"
    and z: "grid b ! row ! col = 0"
    using assms(2) by (simp_all add: mem_empty_cells)
  have n: "length (grid b) = size_b b" "length (grid b ! row) = size_b b"
    using assms(1) r by (simp_all add: wf_board_def wf_grid_def list_all_length)
  have v: "v \<noteq> 0" using assms(3) by auto
  have "set_cell (grid b) row col v ! row ! col = v"
    using r c by (simp add: set_cell_def)
  moreover have "count_nonzero (set_cell (grid b) row col v) = count_nonzero (grid b) + 1"
    using count_nonzero_set_cell [OF r c z v] by simp
  ultimately show ?thesis
    unfolding placed_def using r c z n assms(3) nth_set_cell_other
    by (intro exI [of _ row] exI [of _ col] exI [of _ v]) simp
qed

lemma spawn_random_spec:
  assumes "wf_board b"
  shows "\<exists>ok b' rng'. spawn_random b rng = Inr (ok, b', rng')
           \<and> (ok \<longleftrightarrow> any_empty (grid b)) \<and> (if ok then placed b b' else b' = b)"
proof (cases "empty_cells (grid b) = []")
  case True
  then show ?thesis
    by (auto simp: spawn_random_def empty_cells_Nil_iff)
next
  case False
  let ?cells = "empty_cells (grid b)"
  obtain index rng1 where i: "randint (length ?cells) rng = (index, rng1)" by (metis surj_pair)
  obtain row col where rc: "?cells ! index = (row, col)" by (metis surj_pair)
  obtain v rng2 where v: "random_choice_2_4 rng1 = (v, rng2)" by (metis surj_pair)
  have "index < length ?cells"
    using randint_range [of "length ?cells" rng] False i by simp
  then have "(row, col) \<in> set ?cells" using rc by (metis nth_mem)
  moreover have "v \<in> {2, 4}" using random_choice_2_4_range [of rng1] v by simp
  ultimately have "placed b (b\<lparr>grid := set_cell (grid b) row col v\<rparr>)"
    using assms by (intro placedI)
  moreover have "spawn_random b rng = Inr (True, b\<lparr>grid := set_cell (grid b) row col v\<rparr>, rng2)"
    using False i rc v by (simp add: spawn_random_def Let_def)
  ultimately show ?thesis
    using False by (auto simp: empty_cells_Nil_iff)
qed

text \<open>
  Claim C3. For every well-formed board, every spawner (whatever its difficulty) and
  every sequence of random draws, \<open>spawn_tile\<close> returns; it returns true exactly when the
  grid has an empty cell. When it returns false the board is unchanged; when it returns
  true exactly one cell that was empty holds 2 or 4, every other cell is unchanged, and
  the number of nonzero cells has grown by one.
\<close>

theorem spawn_tile_spec:
  assumes "wf_board b"
  shows "\<exists>ok b' rng'. spawn_tile sp b rng = Inr (ok, b', rng')
           \<and> (ok \<longleftrightarrow> any_empty (grid b)) \<and> (if ok then placed b b' else b' = b)"
proof (cases "sp_difficulty sp = ''medium''")
  case True
  then show ?thesis using spawn_random_spec [OF assms] by (simp add: spawn_tile_def)
next
  case nm: False
  show ?thesis
  proof (cases "empty_cells (grid b) = []")
    case True
    then show ?thesis
      using nm by (auto simp: spawn_tile_def empty_cells_Nil_iff)
  next
    case False
    let ?cells = "empty_cells (grid b)"
    have pos: "0 < size_b b"
      using False assms by (cases "size_b b") (auto simp: wf_board_def wf_grid_0 empty_cells_def)
    obtain scores rng1 where sc: "score_cells sp b ?cells [] rng = Inr (scores, rng1)"
      and cells: "map snd scores = ?cells"
      using score_cells_total [OF assms pos, of sp ?cells "[]" rng] by auto
    then have ne: "scores \<noteq> []" using False by auto
    obtain s row col where bp: "best_pos sp scores = (s, row, col)" by (metis surj_pair)
    obtain v rng2 where v: "random_choice_2_4 rng1 = (v, rng2)" by (metis surj_pair)
    have "(s, row, col) \<in> set scores" using best_pos_mem [OF ne, of sp] bp by simp
    then have "(row, col) \<in> set ?cells"
      unfolding cells [symmetric] by force
    moreover have "v \<in> {2, 4}" using random_choice_2_4_range [of rng1] v by simp
    ultimately have "placed b (b\<lparr>grid := set_cell (grid b) row col v\<rparr>)"
      using assms by (intro placedI)
    moreover have "spawn_tile sp b rng = Inr (True, b\<lparr>grid := set_cell (grid b) row col v\<rparr>, rng2)"
      using nm False sc bp v by (simp add: spawn_tile_def Let_def)
    ultimately show ?thesis
      using False by (auto simp: empty_cells_Nil_iff)
  qed
qed


lemma spawn_tile_b_slide:
  "spawn_tile (ai_spawner b_slide) b_slide [] =
     Inr (True, b_slide\<lparr>grid := set_cell (grid b_slide) 0 1 2\<rparr>, [])"
  by (simp add: b_slide_def board_of_def spawn_tile_def spawn_random_def empty_cells_def
      randint_def random_choice_2_4_def upt4 Let_def)

theorem spawn_tile_spec_witness:
  "wf_board b_slide \<and> any_empty (grid b_slide)
   \<and> spawn_tile (ai_spawner b_slide) b_slide [] =
       Inr (True, b_slide\<lparr>grid := set_cell (grid b_slide) 0 1 2\<rparr>, [])
   \<and> count_nonzero (grid (b_slide\<lparr>grid := set_cell (grid b_slide) 0 1 2\<rparr>))
       = count_nonzero (grid b_slide) + 1"
proof -
  have wf: "wf_board b_slide"
    unfolding b_slide_def by (rule wf_board_of4)
  from spawn_tile_spec [OF wf, of "ai_spawner b_slide" "[]"] spawn_tile_b_slide
  have "any_empty (grid b_slide)"
    and "placed b_slide (b_slide\<lparr>grid := set_cell (grid b_slide) 0 1 2\<rparr>)"
    by auto
  then show ?thesis
    using wf spawn_tile_b_slide unfolding placed_def by blast
qed

end
